theory Spec2Isabelle
  imports Main "HOL-Library.Word" "HOL-Library.Sublist" "HOL-Library.Multiset"
begin

section \<open>The environment of \<open>find_duplicates.py\<close>\<close>

text \<open>
  The program talks to the operating system through \<open>os.path.abspath\<close>, \<open>os.walk\<close>,
  \<open>os.path.getsize\<close>, \<open>open\<close>/\<open>read\<close>, to \<open>hashlib\<close> and to a thread pool. None of
  these is code of the repository, so they are the fields of a record that every function
  of the model takes as an argument. Exceptions are values: a call that can raise returns
  a sum whose left injection is the exception.
\<close>

type_synonym byte = "8 word"

type_synonym path = string

text \<open>
  The exceptions that \<open>os.path.getsize\<close>, \<open>open\<close> and \<open>read\<close> raise, each with the text
  of \<open>str(e)\<close>. \<open>PermissionError\<close> and \<open>FileNotFoundError\<close> are subclasses of \<open>OSError\<close>;
  the constructor \<open>OSError\<close> stands for every other member of that family.
\<close>

datatype exception = PermissionError string | FileNotFoundError string | OSError string

fun isinstance_PermissionError :: "exception \<Rightarrow> bool" where
  "isinstance_PermissionError (PermissionError _) = True"
| "isinstance_PermissionError _ = False"

fun isinstance_OSError :: "exception \<Rightarrow> bool" where
  "isinstance_OSError (PermissionError _) = True"
| "isinstance_OSError (FileNotFoundError _) = True"
| "isinstance_OSError (OSError _) = True"

fun str_exc :: "exception \<Rightarrow> string" where
  "str_exc (PermissionError m) = m"
| "str_exc (FileNotFoundError m) = m"
| "str_exc (OSError m) = m"

text \<open>
  An open binary file: the bytes not yet read, and the exception (if any) that a read
  raises once they are used up, in place of reporting end of file.
\<close>

type_synonym file_obj = "byte list \<times> exception option"

record env =
  abspath :: "string \<Rightarrow> string"
  walk :: "string \<Rightarrow> (string \<times> string list \<times> string list) list"
  getsize :: "path \<Rightarrow> exception + nat"
  open_rb :: "path \<Rightarrow> exception + file_obj"
  sha256_hexdigest :: "byte list \<Rightarrow> string"
  completion_order :: "nat list"

text \<open>
  \<open>walk\<close> is the finite sequence of \<open>(root, dirs, files)\<close> triples that \<open>os.walk\<close> yields
  (it is called without \<open>onerror\<close>, so a directory that cannot be listed yields nothing
  and raises nothing). \<open>sha256_hexdigest\<close> is the hexadecimal SHA-256 digest of a byte
  string. \<open>completion_order\<close> is the order in which the tasks of the thread pool finish.
\<close>

text \<open>\<open>f.read(chunk_size)\<close>: the chunk and the file advanced past it.\<close>

definition f_read :: "file_obj \<Rightarrow> nat \<Rightarrow> exception + (byte list \<times> file_obj)" where
  "f_read f n =
     (case f of (data, err) \<Rightarrow>
        if data = [] then (case err of Some e \<Rightarrow> Inl e | None \<Rightarrow> Inr ([], f))
        else Inr (take n data, (drop n data, err)))"

text \<open>
  A \<open>hashlib\<close> hash object is modelled by the bytes fed to it so far: repeated calls of
  \<open>update\<close> are equivalent to one call with the concatenation of the arguments.
\<close>

type_synonym hasher = "byte list"

definition hashlib_sha256 :: hasher where
  "hashlib_sha256 = []"

definition hasher_update :: "hasher \<Rightarrow> byte list \<Rightarrow> hasher" where
  "hasher_update h chunk = h @ chunk"

definition hexdigest :: "env \<Rightarrow> hasher \<Rightarrow> string" where
  "hexdigest e h = sha256_hexdigest e h"

text \<open>\<open>posixpath.join\<close> of two components.\<close>

definition os_path_join :: "string \<Rightarrow> string \<Rightarrow> string" where
  "os_path_join a b =
     (if prefix ''/'' b then b
      else if a = [] \<or> last a = CHR ''/'' then a @ b
      else a @ ''/'' @ b)"

text \<open>\<open>pattern in filename\<close> on strings: \<open>pattern\<close> occurs as a contiguous substring.\<close>

fun str_in :: "string \<Rightarrow> string \<Rightarrow> bool" where
  "str_in pat [] = (pat = [])"
| "str_in pat (c # cs) = (prefix pat (c # cs) \<or> str_in pat cs)"

section \<open>\<open>FileDuplicateFinder\<close>\<close>

record finder =
  directory :: string
  ignore_patterns :: "string list"
  min_file_size :: int

text \<open>
  \<open>__init__(self, directory, ignore_patterns=None, min_file_size=1)\<close>; an argument that
  the caller leaves out is \<open>None\<close> here.
\<close>

definition FileDuplicateFinder_init ::
  "env \<Rightarrow> string \<Rightarrow> string list option \<Rightarrow> int option \<Rightarrow> finder" where
  "FileDuplicateFinder_init e dir pats msize =
     \<lparr> directory = abspath e dir,
       ignore_patterns = (case pats of None \<Rightarrow> [] | Some ps \<Rightarrow> ps),
       min_file_size = (case msize of None \<Rightarrow> 1 | Some n \<Rightarrow> n) \<rparr>"

definition should_ignore_file :: "finder \<Rightarrow> string \<Rightarrow> bool" where
  "should_ignore_file self filename =
     list_ex (\<lambda>pattern. str_in pattern filename) (ignore_patterns self)"

subsection \<open>\<open>calculate_hash\<close>\<close>

text \<open>The loop \<open>while chunk := f.read(chunk_size): hasher.update(chunk)\<close>.\<close>

function read_chunks :: "nat \<Rightarrow> file_obj \<Rightarrow> hasher \<Rightarrow> exception + hasher" where
  "read_chunks chunk_size f h =
     (case f_read f chunk_size of
        Inl e \<Rightarrow> Inl e
      | Inr (chunk, f') \<Rightarrow>
          if chunk = [] then Inr h
          else read_chunks chunk_size f' (hasher_update h chunk))"
  by pat_completeness auto
termination
proof (relation "measure (\<lambda>(n, f, h). length (fst f))")
  show "wf (measure (\<lambda>(n, f, h). length (fst f)))"
    by simp
next
  fix chunk_size :: nat and f :: file_obj and h :: hasher and x2 chunk f'
  assume r: "f_read f chunk_size = Inr x2" "(chunk, f') = x2" and ne: "chunk \<noteq> []"
  obtain data err where f: "f = (data, err)"
    by (cases f)
  from r ne f have "data \<noteq> []" "chunk = take chunk_size data" "f' = (drop chunk_size data, err)"
    by (auto simp: f_read_def split: if_splits option.splits)
  with ne have "length (fst f') < length (fst f)"
    using f by (cases chunk_size) auto
  then show "((chunk_size, f', hasher_update h chunk), (chunk_size, f, h))
               \<in> measure (\<lambda>(n, f, h). length (fst f))"
    by simp
qed

declare read_chunks.simps [simp del]

text \<open>The body of the \<open>try\<close> statement.\<close>

definition calculate_hash_try :: "env \<Rightarrow> path \<Rightarrow> nat \<Rightarrow> exception + string" where
  "calculate_hash_try e file_path chunk_size =
     (case open_rb e file_path of
        Inl ex \<Rightarrow> Inl ex
      | Inr f \<Rightarrow>
          (case read_chunks chunk_size f hashlib_sha256 of
             Inl ex \<Rightarrow> Inl ex
           | Inr h \<Rightarrow> Inr (hexdigest e h)))"

text \<open>
  A log record: \<open>LogWarning file_path\<close> is the \<open>logger.warning\<close> call of the
  \<open>except PermissionError\<close> clause, \<open>LogError file_path detail\<close> the \<open>logger.error\<close> call of
  the \<open>except OSError as e\<close> clause, whose message ends with \<open>str(e)\<close>.
\<close>

datatype log_record = LogWarning path | LogError path string

text \<open>
  \<open>calculate_hash\<close> returns the value (\<open>None\<close> is \<open>None\<close>) and the records it logged, or
  raises the exception that neither \<open>except\<close> clause catches.
\<close>

definition calculate_hash ::
  "env \<Rightarrow> path \<Rightarrow> nat \<Rightarrow> exception + (string option \<times> log_record list)" where
  "calculate_hash e file_path chunk_size =
     (case calculate_hash_try e file_path chunk_size of
        Inr h \<Rightarrow> Inr (Some h, [])
      | Inl ex \<Rightarrow>
          if isinstance_PermissionError ex then Inr (None, [LogWarning file_path])
          else if isinstance_OSError ex then Inr (None, [LogError file_path (str_exc ex)])
          else Inl ex)"

subsection \<open>\<open>find_duplicate_files\<close>\<close>

text \<open>
  The inner loop \<open>for filename in files\<close> and the outer loop over \<open>os.walk\<close>, with the
  list \<open>files_to_check\<close> passed along. \<open>os.path.getsize\<close> is evaluated first, outside any
  \<open>try\<close>, so its exception leaves the function.
\<close>

fun walk_files :: "finder \<Rightarrow> env \<Rightarrow> string \<Rightarrow> string list \<Rightarrow> path list \<Rightarrow> exception + path list" where
  "walk_files self e root [] files_to_check = Inr files_to_check"
| "walk_files self e root (filename # files) files_to_check =
     (let file_path = os_path_join root filename
      in case getsize e file_path of
           Inl ex \<Rightarrow> Inl ex
         | Inr sz \<Rightarrow>
             if min_file_size self \<le> int sz \<and> \<not> should_ignore_file self filename
             then walk_files self e root files (files_to_check @ [file_path])
             else walk_files self e root files files_to_check)"

fun walk_dirs ::
  "finder \<Rightarrow> env \<Rightarrow> (string \<times> string list \<times> string list) list \<Rightarrow> path list \<Rightarrow> exception + path list" where
  "walk_dirs self e [] files_to_check = Inr files_to_check"
| "walk_dirs self e ((root, dirs, files) # rest) files_to_check =
     (case walk_files self e root files files_to_check of
        Inl ex \<Rightarrow> Inl ex
      | Inr files_to_check' \<Rightarrow> walk_dirs self e rest files_to_check')"

text \<open>
  \<open>executor.map(f, xs)\<close>: the tasks finish in the order \<open>order\<close>, each storing its result in
  the future of its own index; the results are then taken from the futures by index, and
  taking the result of a task that has not finished yet waits for it.
\<close>

definition executor_map :: "nat list \<Rightarrow> ('a \<Rightarrow> 'b) \<Rightarrow> 'a list \<Rightarrow> 'b list" where
  "executor_map order f xs =
     (let futures = fold (\<lambda>i fs. if i < length xs then fs[i := Some (f (xs ! i))] else fs)
                      order (replicate (length xs) None)
      in map (\<lambda>i. case futures ! i of Some r \<Rightarrow> r | None \<Rightarrow> f (xs ! i)) [0..<length xs])"

text \<open>\<open>list(...)\<close> over the results: the first task that raised, in input order, raises here.\<close>

fun list_results :: "(exception + 'a) list \<Rightarrow> exception + 'a list" where
  "list_results [] = Inr []"
| "list_results (r # rs) =
     (case r of
        Inl ex \<Rightarrow> Inl ex
      | Inr v \<Rightarrow> (case list_results rs of Inl ex \<Rightarrow> Inl ex | Inr vs \<Rightarrow> Inr (v # vs)))"

text \<open>
  A dictionary keeps its keys in insertion order: an association list with distinct keys.
  \<open>file_hashes[file_hash].append(file_path)\<close> on a \<open>defaultdict(list)\<close>:
\<close>

type_synonym file_hashes = "(string \<times> path list) list"

fun dict_append :: "file_hashes \<Rightarrow> string \<Rightarrow> path \<Rightarrow> file_hashes" where
  "dict_append [] k v = [(k, [v])]"
| "dict_append ((k', vs) # d) k v =
     (if k' = k then (k', vs @ [v]) # d else (k', vs) # dict_append d k v)"

text \<open>
  The loop over \<open>zip(files_to_check, hash_results)\<close>; \<open>if file_hash:\<close> is false for \<open>None\<close>
  and for the empty string.
\<close>

fun group_files :: "(path \<times> string option) list \<Rightarrow> file_hashes \<Rightarrow> file_hashes" where
  "group_files [] file_hashes = file_hashes"
| "group_files ((file_path, file_hash) # rest) file_hashes =
     (case file_hash of
        None \<Rightarrow> group_files rest file_hashes
      | Some h \<Rightarrow>
          if h \<noteq> [] then group_files rest (dict_append file_hashes h file_path)
          else group_files rest file_hashes)"

definition find_duplicate_files :: "finder \<Rightarrow> env \<Rightarrow> exception + file_hashes" where
  "find_duplicate_files self e =
     (case walk_dirs self e (walk e (directory self)) [] of
        Inl ex \<Rightarrow> Inl ex
      | Inr files_to_check \<Rightarrow>
          (case list_results
                  (executor_map (completion_order e) (\<lambda>p. calculate_hash e p 8192) files_to_check) of
             Inl ex \<Rightarrow> Inl ex
           | Inr results \<Rightarrow>
               Inr (filter (\<lambda>(hash_val, paths). 1 < length paths)
                      (group_files (zip files_to_check (map fst results)) []))))"

subsection \<open>\<open>main\<close>\<close>

text \<open>
  The command line as \<open>argparse\<close> sees it: the directory, the values of \<open>--ignore\<close> and the
  value of \<open>--min-size\<close>, \<open>None\<close> for an option that is not given.
\<close>

record command_line =
  arg_directory :: string
  arg_ignore :: "string list option"
  arg_min_size :: "int option"

text \<open>\<open>args.min_size\<close> after \<open>parse_args\<close>: \<open>add_argument("--min-size", type=int, default=1024)\<close>.\<close>

definition args_min_size :: "command_line \<Rightarrow> int" where
  "args_min_size cl = (case arg_min_size cl of None \<Rightarrow> 1024 | Some n \<Rightarrow> n)"

text \<open>The \<open>finder\<close> that \<open>main\<close> constructs, and its call of \<open>find_duplicate_files\<close>.\<close>

definition main_finder :: "env \<Rightarrow> command_line \<Rightarrow> finder" where
  "main_finder e cl =
     FileDuplicateFinder_init e (arg_directory cl)
       (Some (case arg_ignore cl of None \<Rightarrow> [] | Some ps \<Rightarrow> if ps = [] then [] else ps))
       (Some (args_min_size cl))"

definition main_duplicates :: "env \<Rightarrow> command_line \<Rightarrow> exception + file_hashes" where
  "main_duplicates e cl = find_duplicate_files (main_finder e cl) e"

section \<open>Notions used in the statements\<close>

text \<open>
  The files that the walk discovers, in order: each file name with the directory that
  lists it; and the path that the scan builds for such an entry.
\<close>

definition discovered :: "(string \<times> string list \<times> string list) list \<Rightarrow> (string \<times> string) list" where
  "discovered w = concat (map (\<lambda>(root, dirs, files). map (Pair root) files) w)"

definition entry_path :: "string \<times> string \<Rightarrow> path" where
  "entry_path en = os_path_join (fst en) (snd en)"

text \<open>
  The filter as the specification words it: a file is included if and only if its size
  is at least the configured minimum and its name contains none of the ignore patterns
  as a substring.
\<close>

definition spec_should_include :: "finder \<Rightarrow> string \<Rightarrow> nat \<Rightarrow> bool" where
  "spec_should_include self filename sz \<longleftrightarrow>
     min_file_size self \<le> int sz \<and> \<not> (\<exists>pat \<in> set (ignore_patterns self). sublist pat filename)"

definition passes_filter :: "finder \<Rightarrow> env \<Rightarrow> string \<times> string \<Rightarrow> bool" where
  "passes_filter self e en =
     (case getsize e (entry_path en) of
        Inl _ \<Rightarrow> False
      | Inr sz \<Rightarrow> spec_should_include self (snd en) sz)"

definition stat_ok :: "env \<Rightarrow> string \<times> string \<Rightarrow> bool" where
  "stat_ok e en = (case getsize e (entry_path en) of Inl _ \<Rightarrow> False | Inr _ \<Rightarrow> True)"

definition candidates :: "finder \<Rightarrow> env \<Rightarrow> path list" where
  "candidates self e =
     map entry_path (filter (passes_filter self e) (discovered (walk e (directory self))))"

text \<open>The value that \<open>calculate_hash\<close> returns for a path, with the default chunk size.\<close>

definition hash_result :: "env \<Rightarrow> path \<Rightarrow> string option" where
  "hash_result e p = (case calculate_hash e p 8192 of Inl _ \<Rightarrow> None | Inr r \<Rightarrow> fst r)"

definition bucket :: "(path \<times> string option) list \<Rightarrow> string \<Rightarrow> path list" where
  "bucket zs h = map fst (filter (\<lambda>z. snd z = Some h) zs)"

subsection \<open>Example environments\<close>

text \<open>
  A directory \<open>/d\<close> with the files \<open>a\<close>, \<open>b\<close> (same content), \<open>c\<close> (other content) and
  \<open>locked\<close> (cannot be opened), and a subdirectory \<open>s\<close> with \<open>x.tmp\<close> (the content of \<open>a\<close>).
  The digest of the examples is a stand-in that is never empty and separates contents of
  different length.
\<close>

definition toy_hexdigest :: "byte list \<Rightarrow> string" where
  "toy_hexdigest bs = replicate (Suc (length bs)) (CHR ''f'')"

definition demo_env :: env where
  "demo_env =
     \<lparr> abspath = (\<lambda>d. d),
       walk = (\<lambda>d. if d = ''/d''
                   then [(''/d'', [''s''], [''a'', ''b'', ''c'', ''locked'']), (''/d/s'', [], [''x.tmp''])]
                   else []),
       getsize = (\<lambda>p. if p = ''/d/a'' \<or> p = ''/d/b'' \<or> p = ''/d/s/x.tmp'' \<or> p = ''/d/locked''
                      then Inr 3
                      else if p = ''/d/c'' then Inr 2
                      else Inl (FileNotFoundError p)),
       open_rb = (\<lambda>p. if p = ''/d/a'' \<or> p = ''/d/b'' \<or> p = ''/d/s/x.tmp''
                      then Inr ([1, 2, 3], None)
                      else if p = ''/d/c'' then Inr ([4, 5], None)
                      else if p = ''/d/locked'' then Inl (PermissionError p)
                      else Inl (FileNotFoundError p)),
       sha256_hexdigest = toy_hexdigest,
       completion_order = [3, 0, 2, 1] \<rparr>"

text \<open>The same files found in another order, and completing in another order.\<close>

definition demo_env_reordered :: env where
  "demo_env_reordered =
     demo_env
       \<lparr> walk := (\<lambda>d. if d = ''/d''
                     then [(''/d'', [''s''], [''locked'', ''b'', ''c'', ''a'']), (''/d/s'', [], [''x.tmp''])]
                     else []),
         completion_order := [0, 1, 2, 3] \<rparr>"

text \<open>
  The directory also lists \<open>gone\<close>, an entry whose size cannot be read (a dangling
  symbolic link, or a file deleted after the directory was listed).
\<close>

definition broken_env :: env where
  "broken_env =
     demo_env \<lparr> walk := (\<lambda>d. if d = ''/d'' then [(''/d'', [], [''a'', ''gone'', ''b''])] else []) \<rparr>"

text \<open>The same tree with every file 2048 bytes long.\<close>

definition large_env :: env where
  "large_env = demo_env \<lparr> getsize := (\<lambda>p. Inr 2048) \<rparr>"

text \<open>The same tree where reading \<open>a\<close> fails with an input/output error after two bytes.\<close>

definition flaky_env :: env where
  "flaky_env =
     demo_env
       \<lparr> open_rb := (\<lambda>p. if p = ''/d/a'' then Inr ([1, 2], Some (OSError ''Input/output error''))
                         else open_rb demo_env p) \<rparr>"

section \<open>Properties of the parts\<close>

subsection \<open>Substring test and \<open>calculate_hash\<close>\<close>

lemma str_in_sublist: "str_in pat s = sublist pat s"
  by (induction s) (auto simp: sublist_Cons_right)

lemma should_ignore_file_iff:
  "should_ignore_file self fn = (\<exists>pat \<in> set (ignore_patterns self). sublist pat fn)"
  by (simp add: should_ignore_file_def list_ex_iff str_in_sublist)

lemma read_chunks_ok:
  "0 < n \<Longrightarrow> read_chunks n (data, None) h = Inr (h @ data)"
proof (induction "length data" arbitrary: data h rule: less_induct)
  case less
  show ?case
  proof (cases "data = []")
    case True
    then show ?thesis by (subst read_chunks.simps) (simp add: f_read_def)
  next
    case False
    with less.prems have "take n data \<noteq> []" by (cases data) auto
    moreover have "length (drop n data) < length data"
      using False less.prems by simp
    ultimately show ?thesis
      using less.hyps[of "drop n data" "hasher_update h (take n data)"] less.prems False
      by (subst read_chunks.simps) (simp add: f_read_def hasher_update_def)
  qed
qed

lemma read_chunks_err:
  "0 < n \<Longrightarrow> read_chunks n (data, Some ex) h = Inl ex"
proof (induction "length data" arbitrary: data h rule: less_induct)
  case less
  show ?case
  proof (cases "data = []")
    case True
    then show ?thesis by (subst read_chunks.simps) (simp add: f_read_def)
  next
    case False
    with less.prems have "take n data \<noteq> []" by (cases data) auto
    moreover have "length (drop n data) < length data"
      using False less.prems by simp
    ultimately show ?thesis
      using less.hyps[of "drop n data" "hasher_update h (take n data)"] less.prems False
      by (subst read_chunks.simps) (simp add: f_read_def hasher_update_def)
  qed
qed

lemma isinstance_OSError_all: "isinstance_OSError ex"
  by (cases ex) simp_all

lemma calculate_hash_returns:
  "\<exists>r. calculate_hash e p n = Inr r"
  by (simp add: calculate_hash_def isinstance_OSError_all split: sum.splits)

lemma calculate_hash_cases:
  "calculate_hash e p n =
     (case calculate_hash_try e p n of
        Inr h \<Rightarrow> Inr (Some h, [])
      | Inl ex \<Rightarrow> Inr (None, [if isinstance_PermissionError ex then LogWarning p
                               else LogError p (str_exc ex)]))"
  by (simp add: calculate_hash_def isinstance_OSError_all split: sum.splits)

lemma calculate_hash_content:
  "open_rb e p = Inr (data, None) \<Longrightarrow> 0 < n \<Longrightarrow>
   calculate_hash e p n = Inr (Some (sha256_hexdigest e data), [])"
  by (simp add: calculate_hash_def calculate_hash_try_def read_chunks_ok hashlib_sha256_def
      hexdigest_def)

subsection \<open>Enumeration, thread pool and result list\<close>

lemma walk_files_Inr:
  "walk_files self e root files acc = Inr r \<Longrightarrow>
   (\<forall>fn \<in> set files. stat_ok e (root, fn)) \<and>
   r = acc @ map entry_path (filter (passes_filter self e) (map (Pair root) files))"
proof (induction files arbitrary: acc)
  case Nil
  then show ?case by simp
next
  case (Cons fn files)
  from Cons.prems obtain sz where sz: "getsize e (os_path_join root fn) = Inr sz"
    by (auto simp: Let_def split: sum.splits)
  show ?case
  proof (cases "min_file_size self \<le> int sz \<and> \<not> should_ignore_file self fn")
    case True
    with Cons.prems sz have "walk_files self e root files (acc @ [os_path_join root fn]) = Inr r"
      by (simp add: Let_def)
    from Cons.IH[OF this] True sz show ?thesis
      by (simp add: stat_ok_def passes_filter_def spec_should_include_def entry_path_def should_ignore_file_iff)
  next
    case False
    with Cons.prems sz have "walk_files self e root files acc = Inr r"
      by (auto simp: Let_def)
    from Cons.IH[OF this] False sz show ?thesis
      by (auto simp: stat_ok_def passes_filter_def spec_should_include_def entry_path_def should_ignore_file_iff)
  qed
qed

lemma walk_files_ok:
  "\<forall>fn \<in> set files. stat_ok e (root, fn) \<Longrightarrow>
   walk_files self e root files acc =
     Inr (acc @ map entry_path (filter (passes_filter self e) (map (Pair root) files)))"
proof (induction files arbitrary: acc)
  case Nil
  then show ?case by simp
next
  case (Cons fn files)
  from Cons.prems obtain sz where sz: "getsize e (os_path_join root fn) = Inr sz"
    by (auto simp: stat_ok_def entry_path_def split: sum.splits)
  from Cons.prems have rest: "\<forall>fn \<in> set files. stat_ok e (root, fn)"
    by simp
  show ?case
    using Cons.IH[OF rest] sz
    by (simp add: Let_def passes_filter_def spec_should_include_def entry_path_def should_ignore_file_iff)
qed

lemma walk_dirs_Inr:
  "walk_dirs self e w acc = Inr r \<Longrightarrow>
   (\<forall>en \<in> set (discovered w). stat_ok e en) \<and>
   r = acc @ map entry_path (filter (passes_filter self e) (discovered w))"
proof (induction w arbitrary: acc)
  case Nil
  then show ?case by (simp add: discovered_def)
next
  case (Cons t w)
  obtain root dirs files where t: "t = (root, dirs, files)"
    by (cases t)
  from Cons.prems t obtain acc' where
    1: "walk_files self e root files acc = Inr acc'" and 2: "walk_dirs self e w acc' = Inr r"
    by (auto split: sum.splits)
  from walk_files_Inr[OF 1] Cons.IH[OF 2] t show ?case
    by (auto simp: discovered_def)
qed

lemma walk_dirs_ok:
  "\<forall>en \<in> set (discovered w). stat_ok e en \<Longrightarrow>
   walk_dirs self e w acc = Inr (acc @ map entry_path (filter (passes_filter self e) (discovered w)))"
proof (induction w arbitrary: acc)
  case Nil
  then show ?case by (simp add: discovered_def)
next
  case (Cons t w)
  obtain root dirs files where t: "t = (root, dirs, files)"
    by (cases t)
  from Cons.prems t have a: "\<forall>fn \<in> set files. stat_ok e (root, fn)"
    and b: "\<forall>en \<in> set (discovered w). stat_ok e en"
    by (auto simp: discovered_def)
  show ?case
    using walk_files_ok[OF a] Cons.IH[OF b] t by (simp add: discovered_def)
qed

lemma walk_dirs_iff:
  "walk_dirs self e (walk e (directory self)) [] = Inr r \<longleftrightarrow>
   (\<forall>en \<in> set (discovered (walk e (directory self))). stat_ok e en) \<and> r = candidates self e"
  using walk_dirs_Inr[of self e "walk e (directory self)" "[]" r]
        walk_dirs_ok[of "walk e (directory self)" e self "[]"]
  by (auto simp: candidates_def)

lemma executor_fold_inv:
  "length fs = length xs \<Longrightarrow>
   \<forall>i < length xs. fs ! i = None \<or> fs ! i = Some (f (xs ! i)) \<Longrightarrow>
   length (fold (\<lambda>i fs. if i < length xs then fs[i := Some (f (xs ! i))] else fs) order fs) = length xs \<and>
   (\<forall>i < length xs.
      fold (\<lambda>i fs. if i < length xs then fs[i := Some (f (xs ! i))] else fs) order fs ! i = None \<or>
      fold (\<lambda>i fs. if i < length xs then fs[i := Some (f (xs ! i))] else fs) order fs ! i = Some (f (xs ! i)))"
proof (induction order arbitrary: fs)
  case Nil
  then show ?case by simp
next
  case (Cons j order)
  show ?case
  proof (cases "j < length xs")
    case True
    have "length (fs[j := Some (f (xs ! j))]) = length xs"
      using Cons.prems(1) by simp
    moreover have "\<forall>i < length xs. fs[j := Some (f (xs ! j))] ! i = None \<or>
        fs[j := Some (f (xs ! j))] ! i = Some (f (xs ! i))"
      using Cons.prems True by (auto simp: nth_list_update)
    ultimately show ?thesis
      using Cons.IH[of "fs[j := Some (f (xs ! j))]"] True by simp
  next
    case False
    then show ?thesis using Cons.IH[OF Cons.prems] by simp
  qed
qed

lemma executor_map_eq: "executor_map order f xs = map f xs"
proof -
  let ?fs = "fold (\<lambda>i fs. if i < length xs then fs[i := Some (f (xs ! i))] else fs) order
               (replicate (length xs) None)"
  have inv: "\<forall>i < length xs. ?fs ! i = None \<or> ?fs ! i = Some (f (xs ! i))"
    using executor_fold_inv[of "replicate (length xs) None" xs f order] by simp
  have "map (\<lambda>i. case ?fs ! i of Some r \<Rightarrow> r | None \<Rightarrow> f (xs ! i)) [0..<length xs]
        = map (\<lambda>i. f (xs ! i)) [0..<length xs]"
  proof (rule map_cong[OF refl])
    fix i assume "i \<in> set [0..<length xs]"
    then have "i < length xs" by simp
    with inv have "?fs ! i = None \<or> ?fs ! i = Some (f (xs ! i))" by blast
    then show "(case ?fs ! i of Some r \<Rightarrow> r | None \<Rightarrow> f (xs ! i)) = f (xs ! i)"
      by (auto split: option.splits)
  qed
  also have "\<dots> = map f (map ((!) xs) [0..<length xs])"
    by (simp only: map_map o_def)
  also have "\<dots> = map f xs"
    by (simp only: map_nth)
  finally show ?thesis
    by (simp add: executor_map_def Let_def)
qed

lemma list_results_Inr: "list_results rs = Inr vs \<Longrightarrow> rs = map Inr vs"
proof (induction rs arbitrary: vs)
  case Nil
  then show ?case by simp
next
  case (Cons r rs)
  from Cons.prems obtain v vs' where "r = Inr v" "list_results rs = Inr vs'" "vs = v # vs'"
    by (cases r; cases "list_results rs") auto
  with Cons.IH[of vs'] show ?case by simp
qed

lemma list_results_calculate_hash:
  assumes "list_results (map (\<lambda>p. calculate_hash e p n) ps) = Inr rs"
  shows "map fst rs = map (\<lambda>p. case calculate_hash e p n of Inl _ \<Rightarrow> None | Inr r \<Rightarrow> fst r) ps"
proof -
  have eq: "map (\<lambda>p. calculate_hash e p n) ps = map Inr rs"
    using list_results_Inr[OF assms] .
  then have len: "length ps = length rs"
    using length_map by metis
  show ?thesis
  proof (rule nth_equalityI)
    show "length (map fst rs) =
          length (map (\<lambda>p. case calculate_hash e p n of Inl _ \<Rightarrow> None | Inr r \<Rightarrow> fst r) ps)"
      using len by simp
  next
    fix i assume "i < length (map fst rs)"
    then have i: "i < length rs" "i < length ps" using len by simp_all
    from eq have "map (\<lambda>p. calculate_hash e p n) ps ! i = map Inr rs ! i" by simp
    with i have "calculate_hash e (ps ! i) n = Inr (rs ! i)" by simp
    with i show "map fst rs ! i =
        map (\<lambda>p. case calculate_hash e p n of Inl _ \<Rightarrow> None | Inr r \<Rightarrow> fst r) ps ! i"
      by simp
  qed
qed

lemma list_results_total:
  "\<exists>rs. list_results (map (\<lambda>p. calculate_hash e p n) ps) = Inr rs"
proof (induction ps)
  case Nil
  then show ?case by simp
next
  case (Cons p ps)
  then obtain rs where rs: "list_results (map (\<lambda>p. calculate_hash e p n) ps) = Inr rs"
    by blast
  obtain r where r: "calculate_hash e p n = Inr r"
    using calculate_hash_returns[of e p n] by blast
  show ?case using rs r by simp
qed

subsection \<open>Grouping\<close>

lemma dict_append_keys: "map fst (dict_append d k v) = (if k \<in> fst ` set d then map fst d else map fst d @ [k])"
proof (induction d)
  case Nil
  then show ?case by simp
next
  case (Cons a d)
  obtain k' vs where a: "a = (k', vs)" by (cases a)
  show ?case
  proof (cases "k' = k")
    case True
    with a show ?thesis by simp
  next
    case False
    with a Cons.IH show ?thesis by simp
  qed
qed

lemma dict_append_distinct: "distinct (map fst d) \<Longrightarrow> distinct (map fst (dict_append d k v))"
  by (simp add: dict_append_keys)

lemma map_of_dict_append:
  "map_of (dict_append d k v) k' =
     (if k' = k then Some ((case map_of d k of None \<Rightarrow> [] | Some vs \<Rightarrow> vs) @ [v]) else map_of d k')"
  by (induction d) auto

lemma group_files_distinct:
  "distinct (map fst d) \<Longrightarrow> distinct (map fst (group_files zs d))"
proof (induction zs arbitrary: d)
  case Nil
  then show ?case by simp
next
  case (Cons z zs)
  obtain p r where z: "z = (p, r)" by (cases z)
  show ?case
    using Cons.IH[OF Cons.prems] Cons.IH[OF dict_append_distinct[OF Cons.prems]] z
    by (simp split: option.splits)
qed

lemma map_of_group_files:
  "map_of (group_files zs d) h =
     (if h = [] \<or> bucket zs h = [] then map_of d h
      else Some ((case map_of d h of None \<Rightarrow> [] | Some vs \<Rightarrow> vs) @ bucket zs h))"
proof (induction zs arbitrary: d)
  case Nil
  then show ?case by (simp add: bucket_def)
next
  case (Cons z zs)
  obtain p r where z: "z = (p, r)" by (cases z)
  show ?case
  proof (cases r)
    case None
    with z Cons.IH[of d] show ?thesis by (simp add: bucket_def)
  next
    case (Some k)
    show ?thesis
    proof (cases "k = []")
      case True
      with z Some Cons.IH[of d] show ?thesis by (auto simp: bucket_def)
    next
      case False
      with z Some Cons.IH[of "dict_append d k p"] show ?thesis
        by (auto simp: bucket_def map_of_dict_append split: option.splits)
    qed
  qed
qed

lemma map_of_filter_distinct:
  "distinct (map fst d) \<Longrightarrow>
   map_of (filter P d) k = (case map_of d k of None \<Rightarrow> None | Some v \<Rightarrow> if P (k, v) then Some v else None)"
proof (induction d)
  case Nil
  then show ?case by simp
next
  case (Cons a d)
  obtain k' v' where a: "a = (k', v')" by (cases a)
  from Cons.prems a have notin: "k' \<notin> fst ` set d" and dist: "distinct (map fst d)"
    by auto
  from notin have none: "map_of d k' = None"
    by (simp add: map_of_eq_None_iff)
  show ?case
    using Cons.IH[OF dist] a none by (auto split: option.splits)
qed

lemma bucket_zip_map:
  "bucket (zip ps (map g ps)) h = filter (\<lambda>p. g p = Some h) ps"
  by (induction ps) (auto simp: bucket_def)

lemma find_duplicate_files_Inr_iff:
  "(\<exists>d. find_duplicate_files self e = Inr d) \<longleftrightarrow>
   (\<forall>en \<in> set (discovered (walk e (directory self))). stat_ok e en)"
proof
  assume "\<exists>d. find_duplicate_files self e = Inr d"
  then obtain r where "walk_dirs self e (walk e (directory self)) [] = Inr r"
    by (auto simp: find_duplicate_files_def split: sum.splits)
  then show "\<forall>en \<in> set (discovered (walk e (directory self))). stat_ok e en"
    by (simp add: walk_dirs_iff)
next
  assume "\<forall>en \<in> set (discovered (walk e (directory self))). stat_ok e en"
  then have w: "walk_dirs self e (walk e (directory self)) [] = Inr (candidates self e)"
    by (simp add: walk_dirs_iff)
  obtain rs where "list_results (map (\<lambda>p. calculate_hash e p 8192) (candidates self e)) = Inr rs"
    using list_results_total by blast
  with w show "\<exists>d. find_duplicate_files self e = Inr d"
    by (simp add: find_duplicate_files_def executor_map_eq)
qed

lemma find_duplicate_files_groups:
  assumes "find_duplicate_files self e = Inr d"
  shows "distinct (map fst d)"
    and "map_of d h =
           (if h \<noteq> [] \<and> 1 < length (filter (\<lambda>p. hash_result e p = Some h) (candidates self e))
            then Some (filter (\<lambda>p. hash_result e p = Some h) (candidates self e)) else None)"
proof -
  from assms obtain r where r: "walk_dirs self e (walk e (directory self)) [] = Inr r"
    by (auto simp: find_duplicate_files_def split: sum.splits)
  then have rc: "r = candidates self e"
    by (simp add: walk_dirs_iff)
  from assms r rc obtain rs where
    rs: "list_results (map (\<lambda>p. calculate_hash e p 8192) (candidates self e)) = Inr rs"
    and d: "d = filter (\<lambda>(hash_val, paths). 1 < length paths)
                  (group_files (zip (candidates self e) (map fst rs)) [])"
    by (auto simp: find_duplicate_files_def executor_map_eq split: sum.splits)
  have hr: "map fst rs = map (hash_result e) (candidates self e)"
    using list_results_calculate_hash[OF rs] by (simp add: hash_result_def)
  let ?g = "group_files (zip (candidates self e) (map (hash_result e) (candidates self e))) []"
  have dg: "distinct (map fst ?g)"
    by (rule group_files_distinct) simp
  from d hr have d': "d = filter (\<lambda>(hash_val, paths). 1 < length paths) ?g"
    by simp
  show "distinct (map fst d)"
    unfolding d' using dg by (simp add: distinct_map_filter)
  have mg: "map_of ?g h =
      (if h = [] \<or> filter (\<lambda>p. hash_result e p = Some h) (candidates self e) = [] then None
       else Some (filter (\<lambda>p. hash_result e p = Some h) (candidates self e)))"
    by (simp add: map_of_group_files bucket_zip_map)
  show "map_of d h =
           (if h \<noteq> [] \<and> 1 < length (filter (\<lambda>p. hash_result e p = Some h) (candidates self e))
            then Some (filter (\<lambda>p. hash_result e p = Some h) (candidates self e)) else None)"
    unfolding d' map_of_filter_distinct[OF dg] mg
    by (auto split: option.splits)
qed

lemma find_duplicate_files_member:
  assumes "find_duplicate_files self e = Inr d"
  shows "(h, ps) \<in> set d \<longleftrightarrow>
         h \<noteq> [] \<and> ps = filter (\<lambda>p. hash_result e p = Some h) (candidates self e) \<and> 1 < length ps"
proof -
  have "(h, ps) \<in> set d \<longleftrightarrow> map_of d h = Some ps"
    using find_duplicate_files_groups(1)[OF assms] by simp
  then show ?thesis
    unfolding find_duplicate_files_groups(2)[OF assms] by auto
qed

subsection \<open>Environments that differ in one field, and the empty pattern\<close>

lemma passes_filter_eq:
  "passes_filter self e =
     (\<lambda>en. \<exists>sz. getsize e (entry_path en) = Inr sz \<and> min_file_size self \<le> int sz \<and>
        \<not> (\<exists>pat \<in> set (ignore_patterns self). sublist pat (snd en)))"
  by (rule ext) (auto simp: passes_filter_def spec_should_include_def split: sum.splits)

lemma calculate_hash_try_env_cong:
  assumes a: "open_rb e' = open_rb e" and b: "sha256_hexdigest e' = sha256_hexdigest e"
  shows "calculate_hash_try e' p n = calculate_hash_try e p n"
  unfolding calculate_hash_try_def hexdigest_def a b ..

lemma calculate_hash_env_cong:
  assumes a: "open_rb e' = open_rb e" and b: "sha256_hexdigest e' = sha256_hexdigest e"
  shows "calculate_hash e' p n = calculate_hash e p n"
  unfolding calculate_hash_def calculate_hash_try_env_cong[OF a b] ..

lemma walk_files_env_cong:
  "getsize e' = getsize e \<Longrightarrow>
   walk_files self e' root files acc = walk_files self e root files acc"
  by (induction files arbitrary: acc) (simp_all add: Let_def cong: sum.case_cong if_cong)

lemma walk_dirs_env_cong:
  "getsize e' = getsize e \<Longrightarrow> walk_dirs self e' w acc = walk_dirs self e w acc"
proof (induction w arbitrary: acc)
  case Nil
  show ?case by simp
next
  case (Cons t w)
  obtain root dirs files where t: "t = (root, dirs, files)" by (cases t)
  have 1: "walk_files self e' root files acc = walk_files self e root files acc"
    by (rule walk_files_env_cong[OF Cons.prems])
  have 2: "walk_dirs self e' w a = walk_dirs self e w a" for a
    by (rule Cons.IH[OF Cons.prems])
  show ?case
    unfolding t walk_dirs.simps 1 2 ..
qed

lemma find_duplicate_files_completion_order:
  "find_duplicate_files self (e \<lparr> completion_order := order' \<rparr>) = find_duplicate_files self e"
proof -
  have g: "getsize (e \<lparr> completion_order := order' \<rparr>) = getsize e"
    and o: "open_rb (e \<lparr> completion_order := order' \<rparr>) = open_rb e"
    and s: "sha256_hexdigest (e \<lparr> completion_order := order' \<rparr>) = sha256_hexdigest e"
    and w: "walk (e \<lparr> completion_order := order' \<rparr>) = walk e"
    by simp_all
  show ?thesis
    unfolding find_duplicate_files_def executor_map_eq w
      walk_dirs_env_cong[OF g] calculate_hash_env_cong[OF o s] ..
qed

lemma hash_result_env_cong:
  assumes a: "open_rb e' = open_rb e" and b: "sha256_hexdigest e' = sha256_hexdigest e"
  shows "hash_result e' = hash_result e"
  by (rule ext) (simp add: hash_result_def calculate_hash_env_cong[OF a b])

lemma passes_filter_env_cong:
  "getsize e' = getsize e \<Longrightarrow> passes_filter self e' = passes_filter self e"
  by (rule ext) (simp add: passes_filter_def)

lemma str_in_Nil: "str_in [] s"
  by (cases s) simp_all

lemma empty_pattern_ignores: "[] \<in> set (ignore_patterns self) \<Longrightarrow> should_ignore_file self filename"
  unfolding should_ignore_file_def list_ex_iff using str_in_Nil by blast

lemma empty_pattern_candidates:
  assumes "[] \<in> set (ignore_patterns self)"
  shows "filter (passes_filter self e) ens = []"
proof -
  have "\<not> passes_filter self e en" for en
    using assms
    by (auto simp: passes_filter_def spec_should_include_def split: sum.splits)
  then show ?thesis by simp
qed

lemma find_duplicate_files_no_candidates:
  assumes "walk_dirs self e (walk e (directory self)) [] = Inr []"
  shows "find_duplicate_files self e = Inr []"
  using assms by (simp add: find_duplicate_files_def executor_map_eq)

subsection \<open>The scan on the example environments\<close>

lemmas scan_eval =
  find_duplicate_files_def executor_map_eq Let_def os_path_join_def should_ignore_file_def
  calculate_hash_def calculate_hash_try_def read_chunks_ok read_chunks_err hashlib_sha256_def
  hexdigest_def toy_hexdigest_def FileDuplicateFinder_init_def

lemma demo_scan:
  "find_duplicate_files (FileDuplicateFinder_init demo_env ''/d'' (Some [''tmp'']) (Some 3)) demo_env
     = Inr [(''ffff'', [''/d/a'', ''/d/b''])]"
  by (simp add: scan_eval demo_env_def)

lemma demo_scan_default:
  "find_duplicate_files (FileDuplicateFinder_init demo_env ''/d'' None None) demo_env
     = Inr [(''ffff'', [''/d/a'', ''/d/b'', ''/d/s/x.tmp''])]"
  by (simp add: scan_eval demo_env_def)

lemma demo_scan_reordered:
  "find_duplicate_files (FileDuplicateFinder_init demo_env ''/d'' None None) demo_env_reordered
     = Inr [(''ffff'', [''/d/b'', ''/d/a'', ''/d/s/x.tmp''])]"
  by (simp add: scan_eval demo_env_def demo_env_reordered_def)

lemma large_scan:
  "main_duplicates large_env \<lparr>arg_directory = ''/d'', arg_ignore = None, arg_min_size = None\<rparr>
     = Inr [(''ffff'', [''/d/a'', ''/d/b'', ''/d/s/x.tmp''])]"
  by (simp add: scan_eval demo_env_def large_env_def main_duplicates_def main_finder_def args_min_size_def)

lemma demo_walk:
  "walk_dirs (FileDuplicateFinder_init demo_env ''/d'' (Some [''tmp'']) (Some 3)) demo_env
     (walk demo_env ''/d'') [] = Inr [''/d/a'', ''/d/b'', ''/d/locked'']"
  by (simp add: scan_eval demo_env_def)

lemma demo_walk_no_patterns:
  "walk_dirs (FileDuplicateFinder_init demo_env ''/d'' None (Some 3)) demo_env
     (walk demo_env ''/d'') [] = Inr [''/d/a'', ''/d/b'', ''/d/locked'', ''/d/s/x.tmp'']"
  by (simp add: scan_eval demo_env_def)

lemma flaky_walk:
  "walk_dirs (FileDuplicateFinder_init flaky_env ''/d'' None None) flaky_env
     (walk flaky_env (directory (FileDuplicateFinder_init flaky_env ''/d'' None None))) []
   = Inr [''/d/a'', ''/d/b'', ''/d/c'', ''/d/locked'', ''/d/s/x.tmp'']"
  by (simp add: scan_eval demo_env_def flaky_env_def)

lemma flaky_scan:
  "find_duplicate_files (FileDuplicateFinder_init flaky_env ''/d'' None None) flaky_env
     = Inr [(''ffff'', [''/d/b'', ''/d/s/x.tmp''])]"
  by (simp add: scan_eval demo_env_def flaky_env_def)

lemma demo_walk_empty_pattern:
  "walk_dirs (FileDuplicateFinder_init demo_env ''/d'' (Some [''tmp'', []]) None) demo_env
     (walk demo_env ''/d'') [] = Inr []"
  by (simp add: scan_eval demo_env_def)

lemma demo_stat_ok:
  "\<forall>en \<in> set (discovered (walk demo_env (directory
        (FileDuplicateFinder_init demo_env ''/d'' (Some [''tmp'', []]) None)))). stat_ok demo_env en"
  by (simp add: FileDuplicateFinder_init_def demo_env_def discovered_def stat_ok_def entry_path_def
      os_path_join_def)


subsection \<open>Members of the candidate list\<close>

lemma two_members: "p1 \<in> set xs \<Longrightarrow> p2 \<in> set xs \<Longrightarrow> p1 \<noteq> p2 \<Longrightarrow> 1 < length xs"
  by (cases xs; cases "tl xs") auto

lemma candidate_member:
  assumes "(root, fn) \<in> set (discovered (walk e (directory self)))"
    and "getsize e (os_path_join root fn) = Inr sz"
    and "min_file_size self \<le> int sz"
    and "\<not> should_ignore_file self fn"
  shows "os_path_join root fn \<in> set (candidates self e)"
proof -
  have "passes_filter self e (root, fn)"
    using assms(2-4)
    by (simp add: passes_filter_def entry_path_def spec_should_include_def should_ignore_file_iff)
  with assms(1) have "entry_path (root, fn) \<in> set (candidates self e)"
    unfolding candidates_def by (simp add: image_iff) blast
  then show ?thesis by (simp add: entry_path_def)
qed

lemma candidate_origin:
  assumes "p \<in> set (candidates self e)"
  shows "\<exists>root fn sz. (root, fn) \<in> set (discovered (walk e (directory self))) \<and>
           p = os_path_join root fn \<and> getsize e p = Inr sz \<and>
           min_file_size self \<le> int sz \<and> \<not> should_ignore_file self fn"
proof -
  from assms obtain en where en: "en \<in> set (discovered (walk e (directory self)))"
    "passes_filter self e en" "p = entry_path en"
    by (auto simp: candidates_def)
  obtain root fn where rf: "en = (root, fn)" by (cases en)
  from en(2) rf obtain sz where "getsize e (os_path_join root fn) = Inr sz"
    "min_file_size self \<le> int sz" "\<not> should_ignore_file self fn"
    by (auto simp: passes_filter_def entry_path_def spec_should_include_def should_ignore_file_iff
        split: sum.splits)
  with en rf show ?thesis
    by (auto simp: entry_path_def)
qed

lemma hash_result_Some:
  "hash_result e p = Some h \<longleftrightarrow> (\<exists>l. calculate_hash e p 8192 = Inr (Some h, l))"
  by (auto simp: hash_result_def split: sum.splits)

section \<open>The claims\<close>

text \<open>
  Claim C1. Let a scan return the mapping \<open>d\<close>. Two discovered files with different paths,
  each of a size at least the configured minimum and with a name that matches no ignore
  pattern, both opened and read to the end without an error and with the same bytes
  \<open>content\<close>, are both given the SHA-256 hex digest of \<open>content\<close> by \<open>calculate_hash\<close>, and
  \<open>d\<close> has a group under that digest that holds both paths; every group of \<open>d\<close> that holds
  one of the two paths is that group. (The digest of \<open>content\<close> is not the empty string, as
  no hex digest is.)
\<close>

theorem identical_files_share_one_group:
  assumes "find_duplicate_files self e = Inr d"
    and "(root1, fn1) \<in> set (discovered (walk e (directory self)))"
    and "(root2, fn2) \<in> set (discovered (walk e (directory self)))"
    and "os_path_join root1 fn1 \<noteq> os_path_join root2 fn2"
    and "getsize e (os_path_join root1 fn1) = Inr sz1" and "min_file_size self \<le> int sz1"
    and "getsize e (os_path_join root2 fn2) = Inr sz2" and "min_file_size self \<le> int sz2"
    and "\<not> should_ignore_file self fn1" and "\<not> should_ignore_file self fn2"
    and "open_rb e (os_path_join root1 fn1) = Inr (content, None)"
    and "open_rb e (os_path_join root2 fn2) = Inr (content, None)"
    and "sha256_hexdigest e content \<noteq> []"
  shows "calculate_hash e (os_path_join root1 fn1) 8192 = Inr (Some (sha256_hexdigest e content), []) \<and>
         calculate_hash e (os_path_join root2 fn2) 8192 = Inr (Some (sha256_hexdigest e content), []) \<and>
         (\<exists>paths. (sha256_hexdigest e content, paths) \<in> set d \<and>
            os_path_join root1 fn1 \<in> set paths \<and> os_path_join root2 fn2 \<in> set paths \<and>
            (\<forall>h' paths'. (h', paths') \<in> set d \<and>
                 (os_path_join root1 fn1 \<in> set paths' \<or> os_path_join root2 fn2 \<in> set paths')
               \<longrightarrow> h' = sha256_hexdigest e content \<and> paths' = paths))"
proof -
  let ?p1 = "os_path_join root1 fn1" and ?p2 = "os_path_join root2 fn2"
  let ?h = "sha256_hexdigest e content"
  let ?ps = "filter (\<lambda>p. hash_result e p = Some ?h) (candidates self e)"
  have c1: "calculate_hash e ?p1 8192 = Inr (Some ?h, [])"
    using assms(11) by (simp add: calculate_hash_content)
  have c2: "calculate_hash e ?p2 8192 = Inr (Some ?h, [])"
    using assms(12) by (simp add: calculate_hash_content)
  have h1: "hash_result e ?p1 = Some ?h" and h2: "hash_result e ?p2 = Some ?h"
    using c1 c2 by (simp_all add: hash_result_def)
  have m1: "?p1 \<in> set (candidates self e)"
    using candidate_member[OF assms(2) assms(5) assms(6) assms(9)] .
  have m2: "?p2 \<in> set (candidates self e)"
    using candidate_member[OF assms(3) assms(7) assms(8) assms(10)] .
  have in1: "?p1 \<in> set ?ps" and in2: "?p2 \<in> set ?ps"
    using m1 m2 h1 h2 by simp_all
  have len: "1 < length ?ps"
    using two_members[OF in1 in2 assms(4)] .
  have grp: "(?h, ?ps) \<in> set d"
    using len assms(13) by (simp add: find_duplicate_files_member[OF assms(1)])
  have uniq: "h' = ?h \<and> paths' = ?ps"
    if "(h', paths') \<in> set d" "?p1 \<in> set paths' \<or> ?p2 \<in> set paths'" for h' paths'
  proof -
    from that(1) have eq: "paths' = filter (\<lambda>p. hash_result e p = Some h') (candidates self e)"
      by (simp add: find_duplicate_files_member[OF assms(1)])
    with that(2) have "hash_result e ?p1 = Some h' \<or> hash_result e ?p2 = Some h'"
      by auto
    with h1 h2 have "h' = ?h" by auto
    with eq show ?thesis by simp
  qed
  show ?thesis
    using c1 c2 grp in1 in2 uniq by blast
qed

theorem identical_files_share_one_group_witness:
  "find_duplicate_files (FileDuplicateFinder_init demo_env ''/d'' (Some [''tmp'']) (Some 3)) demo_env
     = Inr [(''ffff'', [''/d/a'', ''/d/b''])] \<and>
   calculate_hash demo_env ''/d/a'' 8192 = Inr (Some ''ffff'', []) \<and>
   calculate_hash demo_env ''/d/b'' 8192 = Inr (Some ''ffff'', []) \<and>
   (\<exists>paths. (''ffff'', paths) \<in> set [(''ffff'', [''/d/a'', ''/d/b''])] \<and>
      ''/d/a'' \<in> set paths \<and> ''/d/b'' \<in> set paths \<and>
      (\<forall>h' paths'. (h', paths') \<in> set [(''ffff'', [''/d/a'', ''/d/b''])] \<and>
           (''/d/a'' \<in> set paths' \<or> ''/d/b'' \<in> set paths')
         \<longrightarrow> h' = ''ffff'' \<and> paths' = paths))"
  using demo_scan identical_files_share_one_group
    [of "FileDuplicateFinder_init demo_env ''/d'' (Some [''tmp'']) (Some 3)" demo_env
        "[(''ffff'', [''/d/a'', ''/d/b''])]" "''/d''" "''a''" "''/d''" "''b''" 3 3 "[1, 2, 3]",
     OF demo_scan]
  by (simp add: demo_env_def discovered_def os_path_join_def should_ignore_file_def
      toy_hexdigest_def FileDuplicateFinder_init_def)

text \<open>
  Claim C2. Every entry of the mapping that a scan returns has a path list of at least
  two members: a fingerprint with a single path is not in the result.
\<close>

theorem groups_have_at_least_two_paths:
  "find_duplicate_files self e = Inr d \<Longrightarrow> (h, paths) \<in> set d \<Longrightarrow> 2 \<le> length paths"
  by (auto simp: find_duplicate_files_def split: sum.splits)

theorem groups_have_at_least_two_paths_witness:
  "find_duplicate_files (FileDuplicateFinder_init demo_env ''/d'' None None) demo_env
     = Inr [(''ffff'', [''/d/a'', ''/d/b'', ''/d/s/x.tmp''])] \<and>
   2 \<le> length [''/d/a'', ''/d/b'', ''/d/s/x.tmp'']"
proof -
  have m: "(''ffff'', [''/d/a'', ''/d/b'', ''/d/s/x.tmp''])
             \<in> set [(''ffff'', [''/d/a'', ''/d/b'', ''/d/s/x.tmp''])]"
    by simp
  show ?thesis
    by (rule conjI[OF demo_scan_default groups_have_at_least_two_paths[OF demo_scan_default m]])
qed

text \<open>
  Claim C3. When the enumeration completes, the list of hashing candidates is exactly the
  list of the discovered files, in order, whose size is at least the configured minimum
  (an inclusive threshold) and whose name contains none of the ignore patterns as a
  substring; with an empty pattern list the size alone decides.
\<close>

theorem candidates_are_the_filtered_files:
  assumes "walk_dirs self e w [] = Inr files_to_check"
  shows "files_to_check =
           map entry_path
             (filter (\<lambda>en. \<exists>sz. getsize e (entry_path en) = Inr sz \<and> min_file_size self \<le> int sz \<and>
                        \<not> (\<exists>pat \<in> set (ignore_patterns self). sublist pat (snd en)))
                (discovered w)) \<and>
         (ignore_patterns self = [] \<longrightarrow>
            files_to_check =
              map entry_path
                (filter (\<lambda>en. \<exists>sz. getsize e (entry_path en) = Inr sz \<and> min_file_size self \<le> int sz)
                   (discovered w)))"
proof -
  have "files_to_check = map entry_path (filter (passes_filter self e) (discovered w))"
    using walk_dirs_Inr[OF assms] by simp
  then have 1: "files_to_check =
           map entry_path
             (filter (\<lambda>en. \<exists>sz. getsize e (entry_path en) = Inr sz \<and> min_file_size self \<le> int sz \<and>
                        \<not> (\<exists>pat \<in> set (ignore_patterns self). sublist pat (snd en)))
                (discovered w))"
    by (simp only: passes_filter_eq)
  then show ?thesis by simp
qed

theorem candidates_are_the_filtered_files_witness:
  "walk_dirs (FileDuplicateFinder_init demo_env ''/d'' (Some [''tmp'']) (Some 3)) demo_env
     (walk demo_env ''/d'') [] = Inr [''/d/a'', ''/d/b'', ''/d/locked''] \<and>
   [''/d/a'', ''/d/b'', ''/d/locked''] =
     map entry_path
       (filter (\<lambda>en. \<exists>sz. getsize demo_env (entry_path en) = Inr sz \<and>
                  min_file_size (FileDuplicateFinder_init demo_env ''/d'' (Some [''tmp'']) (Some 3)) \<le> int sz \<and>
                  \<not> (\<exists>pat \<in> set (ignore_patterns
                            (FileDuplicateFinder_init demo_env ''/d'' (Some [''tmp'']) (Some 3))).
                        sublist pat (snd en)))
          (discovered (walk demo_env ''/d''))) \<and>
   walk_dirs (FileDuplicateFinder_init demo_env ''/d'' None (Some 3)) demo_env
     (walk demo_env ''/d'') [] = Inr [''/d/a'', ''/d/b'', ''/d/locked'', ''/d/s/x.tmp''] \<and>
   ignore_patterns (FileDuplicateFinder_init demo_env ''/d'' None (Some 3)) = [] \<and>
   [''/d/a'', ''/d/b'', ''/d/locked'', ''/d/s/x.tmp''] =
     map entry_path
       (filter (\<lambda>en. \<exists>sz. getsize demo_env (entry_path en) = Inr sz \<and>
                  min_file_size (FileDuplicateFinder_init demo_env ''/d'' None (Some 3)) \<le> int sz)
          (discovered (walk demo_env ''/d'')))"
proof -
  have 1: "ignore_patterns (FileDuplicateFinder_init demo_env ''/d'' None (Some 3)) = []"
    by (simp add: FileDuplicateFinder_init_def)
  note a = candidates_are_the_filtered_files[OF demo_walk, THEN conjunct1]
  note b = candidates_are_the_filtered_files[OF demo_walk_no_patterns, THEN conjunct2, rule_format, OF 1]
  show ?thesis
    by (rule conjI[OF demo_walk conjI[OF a conjI[OF demo_walk_no_patterns conjI[OF 1 b]]]])
qed

text \<open>
  Claim C4. \<open>calculate_hash\<close> returns for every path and every chunk size. If opening the
  file raises, or if a read raises after some data, it returns \<open>None\<close>, after one warning
  for a \<open>PermissionError\<close> and after one error record with the text of the exception for
  any other error of opening or reading; and a scan whose enumeration has completed
  returns a mapping. (\<open>open\<close> and \<open>read\<close> signal failure with exceptions of the \<open>OSError\<close>
  family, which the two \<open>except\<close> clauses cover.)
\<close>

theorem calculate_hash_never_raises:
  "(\<exists>r logged. calculate_hash e p n = Inr (r, logged)) \<and>
   (open_rb e p1 = Inl ex1 \<longrightarrow>
      calculate_hash e p1 n =
        Inr (None, [if isinstance_PermissionError ex1 then LogWarning p1
                    else LogError p1 (str_exc ex1)])) \<and>
   (open_rb e p2 = Inr (data, Some ex2) \<and> 0 < n \<longrightarrow>
      calculate_hash e p2 n =
        Inr (None, [if isinstance_PermissionError ex2 then LogWarning p2
                    else LogError p2 (str_exc ex2)])) \<and>
   (walk_dirs self e (walk e (directory self)) [] = Inr files_to_check \<longrightarrow>
      (\<exists>d. find_duplicate_files self e = Inr d))"
proof (intro conjI impI)
  show "\<exists>r logged. calculate_hash e p n = Inr (r, logged)"
    using calculate_hash_returns[of e p n] by auto
next
  assume "open_rb e p1 = Inl ex1"
  then show "calculate_hash e p1 n =
        Inr (None, [if isinstance_PermissionError ex1 then LogWarning p1
                    else LogError p1 (str_exc ex1)])"
    by (simp add: calculate_hash_cases calculate_hash_try_def)
next
  assume "open_rb e p2 = Inr (data, Some ex2) \<and> 0 < n"
  then show "calculate_hash e p2 n =
        Inr (None, [if isinstance_PermissionError ex2 then LogWarning p2
                    else LogError p2 (str_exc ex2)])"
    by (simp add: calculate_hash_cases calculate_hash_try_def read_chunks_err)
next
  assume "walk_dirs self e (walk e (directory self)) [] = Inr files_to_check"
  then have "\<forall>en \<in> set (discovered (walk e (directory self))). stat_ok e en"
    by (simp add: walk_dirs_iff)
  then show "\<exists>d. find_duplicate_files self e = Inr d"
    by (simp add: find_duplicate_files_Inr_iff)
qed

theorem calculate_hash_never_raises_witness:
  "open_rb flaky_env ''/d/locked'' = Inl (PermissionError ''/d/locked'') \<and>
   calculate_hash flaky_env ''/d/locked'' 8192 = Inr (None, [LogWarning ''/d/locked'']) \<and>
   open_rb flaky_env ''/d/a'' = Inr ([1, 2], Some (OSError ''Input/output error'')) \<and>
   calculate_hash flaky_env ''/d/a'' 8192 = Inr (None, [LogError ''/d/a'' ''Input/output error'']) \<and>
   find_duplicate_files (FileDuplicateFinder_init flaky_env ''/d'' None None) flaky_env
     = Inr [(''ffff'', [''/d/b'', ''/d/s/x.tmp''])]"
  using calculate_hash_never_raises
    [of flaky_env "''/d/a''" 8192 "''/d/locked''" "PermissionError ''/d/locked''" "''/d/a''"
        "[1, 2]" "OSError ''Input/output error''"
        "FileDuplicateFinder_init flaky_env ''/d'' None None"
        "[''/d/a'', ''/d/b'', ''/d/c'', ''/d/locked'', ''/d/s/x.tmp'']"]
    flaky_walk flaky_scan
  by (simp add: flaky_env_def demo_env_def)

text \<open>
  Claim C5 says that no failure of a single file ends the scan. The size of a listed file
  is read outside any \<open>try\<close>: on the tree that lists \<open>gone\<close> between \<open>a\<close> and \<open>b\<close> the scan
  raises the \<open>FileNotFoundError\<close> of \<open>os.path.getsize\<close>, while without that entry the same
  files \<open>a\<close> and \<open>b\<close> form a group.
\<close>

theorem unreadable_size_aborts_the_scan:
  "find_duplicate_files (FileDuplicateFinder_init broken_env ''/d'' None None) broken_env
     = Inl (FileNotFoundError ''/d/gone'') \<and>
   find_duplicate_files (FileDuplicateFinder_init broken_env ''/d'' None None)
     (broken_env \<lparr> walk := (\<lambda>d. if d = ''/d'' then [(''/d'', [], [''a'', ''b''])] else []) \<rparr>)
     = Inr [(''ffff'', [''/d/a'', ''/d/b''])]"
  by (simp add: scan_eval demo_env_def broken_env_def)

text \<open>
  The part of C5 that the code does provide: a file that cannot be opened changes no
  group that it is not a member of.
\<close>

lemma read_failure_leaves_other_groups:
  assumes "find_duplicate_files self e = Inr d"
    and "(h, paths) \<in> set d" and "p \<notin> set paths"
  shows "\<exists>d'. find_duplicate_files self (e \<lparr> open_rb := (open_rb e)(p := Inl ex) \<rparr>) = Inr d' \<and>
           (h, paths) \<in> set d'"
proof -
  let ?e = "e \<lparr> open_rb := (open_rb e)(p := Inl ex) \<rparr>"
  have "\<forall>en \<in> set (discovered (walk e (directory self))). stat_ok e en"
    using assms(1) find_duplicate_files_Inr_iff[of self e] by blast
  then have "\<forall>en \<in> set (discovered (walk ?e (directory self))). stat_ok ?e en"
    by (simp add: stat_ok_def)
  then obtain d' where d': "find_duplicate_files self ?e = Inr d'"
    using find_duplicate_files_Inr_iff[of self ?e] by blast
  have cand: "candidates self ?e = candidates self e"
    by (simp add: candidates_def passes_filter_env_cong[of ?e e])
  have "calculate_hash_try ?e q 8192 = calculate_hash_try e q 8192" if "q \<noteq> p" for q
    using that by (simp add: calculate_hash_try_def hexdigest_def cong: sum.case_cong)
  then have hr: "hash_result ?e q = hash_result e q" if "q \<noteq> p" for q
    using that by (simp add: hash_result_def calculate_hash_def)
  from assms(2) have mem: "h \<noteq> [] \<and>
      paths = filter (\<lambda>q. hash_result e q = Some h) (candidates self e) \<and> 1 < length paths"
    using find_duplicate_files_member[OF assms(1), of h paths] by blast
  then have h: "h \<noteq> []" "1 < length paths"
    and ps: "paths = filter (\<lambda>q. hash_result e q = Some h) (candidates self e)"
    by blast+
  have "filter (\<lambda>q. hash_result ?e q = Some h) (candidates self e)
        = filter (\<lambda>q. hash_result e q = Some h) (candidates self e)"
  proof (rule filter_cong[OF refl])
    fix q assume q: "q \<in> set (candidates self e)"
    show "(hash_result ?e q = Some h) = (hash_result e q = Some h)"
    proof (cases "q = p")
      case True
      with assms(3) ps q have "hash_result e q \<noteq> Some h" by auto
      moreover have "hash_result ?e p = None"
        by (simp add: hash_result_def calculate_hash_cases calculate_hash_try_def)
      ultimately show ?thesis using True by simp
    next
      case False
      then show ?thesis by (simp add: hr)
    qed
  qed
  with ps h cand have "h \<noteq> [] \<and>
      paths = filter (\<lambda>q. hash_result ?e q = Some h) (candidates self ?e) \<and> 1 < length paths"
    by simp
  then have "(h, paths) \<in> set d'"
    using find_duplicate_files_member[OF d', of h paths] by blast
  with d' show ?thesis by blast
qed

text \<open>
  Claim C6. If a scan returns, then the scan of the same files discovered in any other
  order (and with any order of completion of the hashing tasks) returns as well, and the
  two results map every fingerprint to the same set of paths (even to the same multiset).
\<close>

theorem grouping_is_order_independent:
  assumes "find_duplicate_files self e = Inr d"
    and "mset (discovered (walk' (directory self))) = mset (discovered (walk e (directory self)))"
  shows "\<exists>d'. find_duplicate_files self (e \<lparr> walk := walk', completion_order := order' \<rparr>) = Inr d' \<and>
           (\<forall>h. map_option set (map_of d' h) = map_option set (map_of d h)) \<and>
           (\<forall>h. map_option mset (map_of d' h) = map_option mset (map_of d h))"
proof -
  let ?e = "e \<lparr> walk := walk', completion_order := order' \<rparr>"
  have ok: "\<forall>en \<in> set (discovered (walk e (directory self))). stat_ok e en"
    using assms(1) find_duplicate_files_Inr_iff[of self e] by blast
  have "set (discovered (walk' (directory self))) = set (discovered (walk e (directory self)))"
    using assms(2) by (rule mset_eq_setD)
  with ok have "\<forall>en \<in> set (discovered (walk ?e (directory self))). stat_ok ?e en"
    by (simp add: stat_ok_def)
  then obtain d' where d': "find_duplicate_files self ?e = Inr d'"
    using find_duplicate_files_Inr_iff[of self ?e] by blast
  have hr: "hash_result ?e = hash_result e"
    by (rule hash_result_env_cong) simp_all
  have pf: "passes_filter self ?e = passes_filter self e"
    by (rule passes_filter_env_cong) simp
  have cm: "mset (candidates self ?e) = mset (candidates self e)"
    using assms(2) by (simp add: candidates_def pf)
  have fm: "mset (filter (\<lambda>p. hash_result e p = Some h) (candidates self ?e))
          = mset (filter (\<lambda>p. hash_result e p = Some h) (candidates self e))" for h
    using cm by simp
  have fl: "length (filter (\<lambda>p. hash_result e p = Some h) (candidates self ?e))
          = length (filter (\<lambda>p. hash_result e p = Some h) (candidates self e))" for h
    using fm[of h] by (rule mset_eq_length)
  have fs: "set (filter (\<lambda>p. hash_result e p = Some h) (candidates self ?e))
          = set (filter (\<lambda>p. hash_result e p = Some h) (candidates self e))" for h
    using fm[of h] by (rule mset_eq_setD)
  have m: "map_option mset (map_of d' h) = map_option mset (map_of d h)" for h
    unfolding find_duplicate_files_groups(2)[OF d'] find_duplicate_files_groups(2)[OF assms(1)] hr
    using fm[of h] fl[of h] by simp
  have s: "map_option set (map_of d' h) = map_option set (map_of d h)" for h
    unfolding find_duplicate_files_groups(2)[OF d'] find_duplicate_files_groups(2)[OF assms(1)] hr
    using fs[of h] fl[of h] by simp
  from d' m s show ?thesis by blast
qed

theorem grouping_is_order_independent_witness:
  "find_duplicate_files (FileDuplicateFinder_init demo_env ''/d'' None None) demo_env
     = Inr [(''ffff'', [''/d/a'', ''/d/b'', ''/d/s/x.tmp''])] \<and>
   find_duplicate_files (FileDuplicateFinder_init demo_env ''/d'' None None) demo_env_reordered
     = Inr [(''ffff'', [''/d/b'', ''/d/a'', ''/d/s/x.tmp''])] \<and>
   (\<exists>d'. find_duplicate_files (FileDuplicateFinder_init demo_env ''/d'' None None)
            (demo_env \<lparr> walk := walk demo_env_reordered, completion_order := [0, 1, 2, 3] \<rparr>) = Inr d' \<and>
      (\<forall>h. map_option set (map_of d' h)
            = map_option set (map_of [(''ffff'', [''/d/a'', ''/d/b'', ''/d/s/x.tmp''])] h)) \<and>
      (\<forall>h. map_option mset (map_of d' h)
            = map_option mset (map_of [(''ffff'', [''/d/a'', ''/d/b'', ''/d/s/x.tmp''])] h)))"
proof -
  have m: "mset (discovered (walk demo_env_reordered
               (directory (FileDuplicateFinder_init demo_env ''/d'' None None))))
         = mset (discovered (walk demo_env
               (directory (FileDuplicateFinder_init demo_env ''/d'' None None))))"
    by (simp add: demo_env_reordered_def demo_env_def discovered_def FileDuplicateFinder_init_def)
  have w: "\<exists>d'. find_duplicate_files (FileDuplicateFinder_init demo_env ''/d'' None None)
            (demo_env \<lparr> walk := walk demo_env_reordered, completion_order := [0, 1, 2, 3] \<rparr>) = Inr d' \<and>
      (\<forall>h. map_option set (map_of d' h)
            = map_option set (map_of [(''ffff'', [''/d/a'', ''/d/b'', ''/d/s/x.tmp''])] h)) \<and>
      (\<forall>h. map_option mset (map_of d' h)
            = map_option mset (map_of [(''ffff'', [''/d/a'', ''/d/b'', ''/d/s/x.tmp''])] h))"
    by (rule grouping_is_order_independent
         [of "FileDuplicateFinder_init demo_env ''/d'' None None" demo_env
             "[(''ffff'', [''/d/a'', ''/d/b'', ''/d/s/x.tmp''])]" "walk demo_env_reordered"
             "[0, 1, 2, 3]", OF demo_scan_default m])
  show ?thesis
    by (rule conjI[OF demo_scan_default conjI[OF demo_scan_reordered w]])
qed

text \<open>
  Claim C7. In a returned mapping, a path of a group is in no other group; its fingerprint
  as computed by \<open>calculate_hash\<close> is the key of the group; and it is the path of a
  discovered file whose size is at least the configured minimum and whose name matches no
  ignore pattern.
\<close>

theorem group_members_invariant:
  assumes "find_duplicate_files self e = Inr d"
    and "(h, paths) \<in> set d" and "p \<in> set paths"
  shows "(\<forall>h' paths'. (h', paths') \<in> set d \<and> p \<in> set paths' \<longrightarrow> h' = h \<and> paths' = paths) \<and>
         (\<exists>logged. calculate_hash e p 8192 = Inr (Some h, logged)) \<and>
         (\<exists>root filename sz.
            (root, filename) \<in> set (discovered (walk e (directory self))) \<and>
            p = os_path_join root filename \<and>
            getsize e p = Inr sz \<and> min_file_size self \<le> int sz \<and>
            \<not> should_ignore_file self filename)"
proof -
  from assms(2) have ps: "paths = filter (\<lambda>q. hash_result e q = Some h) (candidates self e)"
    using find_duplicate_files_member[OF assms(1), of h paths] by blast
  with assms(3) have hp: "hash_result e p = Some h" and pc: "p \<in> set (candidates self e)"
    by auto
  have 1: "h' = h \<and> paths' = paths" if "(h', paths') \<in> set d" "p \<in> set paths'" for h' paths'
  proof -
    from that(1) have eq: "paths' = filter (\<lambda>q. hash_result e q = Some h') (candidates self e)"
      using find_duplicate_files_member[OF assms(1), of h' paths'] by blast
    with that(2) have "hash_result e p = Some h'" by auto
    with hp have "h' = h" by simp
    with eq ps show ?thesis by simp
  qed
  have 2: "\<exists>logged. calculate_hash e p 8192 = Inr (Some h, logged)"
    using hp by (simp add: hash_result_Some)
  from 1 2 candidate_origin[OF pc] show ?thesis by blast
qed

theorem group_members_invariant_witness:
  "find_duplicate_files (FileDuplicateFinder_init demo_env ''/d'' (Some [''tmp'']) (Some 3)) demo_env
     = Inr [(''ffff'', [''/d/a'', ''/d/b''])] \<and>
   (\<exists>logged. calculate_hash demo_env ''/d/b'' 8192 = Inr (Some ''ffff'', logged)) \<and>
   (\<exists>root filename sz.
      (root, filename) \<in> set (discovered (walk demo_env
         (directory (FileDuplicateFinder_init demo_env ''/d'' (Some [''tmp'']) (Some 3))))) \<and>
      ''/d/b'' = os_path_join root filename \<and>
      getsize demo_env ''/d/b'' = Inr sz \<and>
      min_file_size (FileDuplicateFinder_init demo_env ''/d'' (Some [''tmp'']) (Some 3)) \<le> int sz \<and>
      \<not> should_ignore_file (FileDuplicateFinder_init demo_env ''/d'' (Some [''tmp'']) (Some 3)) filename)"
proof -
  have 1: "(''ffff'', [''/d/a'', ''/d/b'']) \<in> set [(''ffff'', [''/d/a'', ''/d/b''])]"
    by simp
  have 2: "''/d/b'' \<in> set [''/d/a'', ''/d/b'']"
    by simp
  show ?thesis
    by (rule conjI[OF demo_scan group_members_invariant[OF demo_scan 1 2, THEN conjunct2]])
qed

text \<open>
  Claim C8, as stated, fails for a caller of the class: \<open>FileDuplicateFinder\<close> constructed
  without \<open>min_file_size\<close> has the threshold 1, and groups files of three bytes.
\<close>

theorem constructor_default_is_one_byte:
  "min_file_size (FileDuplicateFinder_init demo_env ''/d'' None None) = 1 \<and>
   min_file_size (FileDuplicateFinder_init demo_env ''/d'' None None) \<noteq> 1024 \<and>
   getsize demo_env ''/d/a'' = Inr 3 \<and>
   find_duplicate_files (FileDuplicateFinder_init demo_env ''/d'' None None) demo_env
     = Inr [(''ffff'', [''/d/a'', ''/d/b'', ''/d/s/x.tmp''])]"
proof -
  have "min_file_size (FileDuplicateFinder_init demo_env ''/d'' None None) = 1"
    by (simp add: FileDuplicateFinder_init_def)
  moreover have "getsize demo_env ''/d/a'' = Inr 3"
    by (simp add: demo_env_def)
  ultimately show ?thesis
    using demo_scan_default by simp
qed

text \<open>
  Claim C8, amended. When the command line gives no \<open>--min-size\<close>, the finder that
  \<open>main\<close> constructs has the threshold 1024, and every path in a group of its scan has a
  size of at least 1024 bytes; a finder constructed without \<open>min_file_size\<close> has the
  threshold 1.
\<close>

theorem command_line_default_is_1024:
  "(arg_min_size cl = None \<longrightarrow> min_file_size (main_finder e cl) = 1024) \<and>
   min_file_size (FileDuplicateFinder_init e dir pats None) = 1 \<and>
   (arg_min_size cl = None \<and> main_duplicates e cl = Inr d \<and> (h, paths) \<in> set d \<and> p \<in> set paths
      \<longrightarrow> (\<exists>sz. getsize e p = Inr sz \<and> 1024 \<le> sz))"
proof (intro conjI impI)
  assume "arg_min_size cl = None"
  then show "min_file_size (main_finder e cl) = 1024"
    by (simp add: main_finder_def FileDuplicateFinder_init_def args_min_size_def)
next
  show "min_file_size (FileDuplicateFinder_init e dir pats None) = 1"
    by (simp add: FileDuplicateFinder_init_def)
next
  assume a: "arg_min_size cl = None \<and> main_duplicates e cl = Inr d \<and> (h, paths) \<in> set d \<and> p \<in> set paths"
  then have m: "min_file_size (main_finder e cl) = 1024"
    by (simp add: main_finder_def FileDuplicateFinder_init_def args_min_size_def)
  from a have fd: "find_duplicate_files (main_finder e cl) e = Inr d"
    by (simp add: main_duplicates_def)
  from a have "paths = filter (\<lambda>q. hash_result e q = Some h) (candidates (main_finder e cl) e)"
    using find_duplicate_files_member[OF fd, of h paths] by blast
  with a have "p \<in> set (candidates (main_finder e cl) e)"
    by auto
  from candidate_origin[OF this] m show "\<exists>sz. getsize e p = Inr sz \<and> 1024 \<le> sz"
    by auto
qed

theorem command_line_default_is_1024_witness:
  "main_duplicates large_env \<lparr>arg_directory = ''/d'', arg_ignore = None, arg_min_size = None\<rparr>
     = Inr [(''ffff'', [''/d/a'', ''/d/b'', ''/d/s/x.tmp''])] \<and>
   min_file_size (main_finder large_env
     \<lparr>arg_directory = ''/d'', arg_ignore = None, arg_min_size = None\<rparr>) = 1024 \<and>
   (\<exists>sz. getsize large_env ''/d/b'' = Inr sz \<and> 1024 \<le> sz)"
proof -
  note t = command_line_default_is_1024
    [of "\<lparr>arg_directory = ''/d'', arg_ignore = None, arg_min_size = None\<rparr>" large_env
        "''/d''" None "[(''ffff'', [''/d/a'', ''/d/b'', ''/d/s/x.tmp''])]" "''ffff''"
        "[''/d/a'', ''/d/b'', ''/d/s/x.tmp'']" "''/d/b''"]
  have 1: "arg_min_size \<lparr>arg_directory = ''/d'', arg_ignore = None, arg_min_size = None\<rparr> = None"
    by simp
  have 2: "(''ffff'', [''/d/a'', ''/d/b'', ''/d/s/x.tmp''])
             \<in> set [(''ffff'', [''/d/a'', ''/d/b'', ''/d/s/x.tmp''])]"
    by simp
  have 3: "''/d/b'' \<in> set [''/d/a'', ''/d/b'', ''/d/s/x.tmp'']"
    by simp
  from t 1 2 3 large_scan show ?thesis
    by blast
qed

text \<open>
  Claim C9. The path list of a returned group is the list of hashing candidates, in the
  order of discovery, restricted to the paths with the fingerprint of the group; it is a
  subsequence of the discovered paths; and the order in which the hashing tasks complete
  does not change the result.
\<close>

theorem groups_keep_discovery_order:
  assumes "find_duplicate_files self e = Inr d" and "(h, paths) \<in> set d"
  shows "paths = filter (\<lambda>p. hash_result e p = Some h)
                   (map entry_path (filter (passes_filter self e) (discovered (walk e (directory self))))) \<and>
         subseq paths (map entry_path (discovered (walk e (directory self)))) \<and>
         find_duplicate_files self (e \<lparr> completion_order := order' \<rparr>) = Inr d"
proof -
  from assms(2) have ps: "paths = filter (\<lambda>p. hash_result e p = Some h) (candidates self e)"
    using find_duplicate_files_member[OF assms(1), of h paths] by blast
  have "subseq (candidates self e) (map entry_path (discovered (walk e (directory self))))"
    unfolding candidates_def by (intro subseq_map subseq_filter_left)
  with ps have sub: "subseq paths (map entry_path (discovered (walk e (directory self))))"
    using subseq_filter_left subseq_order.trans by blast
  have "find_duplicate_files self (e \<lparr> completion_order := order' \<rparr>) = Inr d"
    using assms(1) by (simp only: find_duplicate_files_completion_order)
  with ps sub show ?thesis
    unfolding candidates_def by blast
qed

theorem groups_keep_discovery_order_witness:
  "find_duplicate_files (FileDuplicateFinder_init demo_env ''/d'' None None) demo_env_reordered
     = Inr [(''ffff'', [''/d/b'', ''/d/a'', ''/d/s/x.tmp''])] \<and>
   map entry_path (discovered (walk demo_env_reordered ''/d''))
     = [''/d/locked'', ''/d/b'', ''/d/c'', ''/d/a'', ''/d/s/x.tmp''] \<and>
   subseq [''/d/b'', ''/d/a'', ''/d/s/x.tmp'']
     (map entry_path (discovered (walk demo_env_reordered
        (directory (FileDuplicateFinder_init demo_env ''/d'' None None))))) \<and>
   find_duplicate_files (FileDuplicateFinder_init demo_env ''/d'' None None)
     (demo_env_reordered \<lparr> completion_order := [4, 3, 2, 1, 0] \<rparr>)
     = Inr [(''ffff'', [''/d/b'', ''/d/a'', ''/d/s/x.tmp''])]"
proof -
  have m: "(''ffff'', [''/d/b'', ''/d/a'', ''/d/s/x.tmp''])
           \<in> set [(''ffff'', [''/d/b'', ''/d/a'', ''/d/s/x.tmp''])]"
    by simp
  have l: "map entry_path (discovered (walk demo_env_reordered ''/d''))
     = [''/d/locked'', ''/d/b'', ''/d/c'', ''/d/a'', ''/d/s/x.tmp'']"
    by (simp add: demo_env_reordered_def demo_env_def discovered_def entry_path_def os_path_join_def)
  note t = groups_keep_discovery_order[OF demo_scan_reordered m, of "[4, 3, 2, 1, 0]"]
  show ?thesis
    by (rule conjI[OF demo_scan_reordered conjI[OF l t[THEN conjunct2]]])
qed

text \<open>
  Claim C10 says that with the empty string among the ignore patterns every file is excluded
  and the scan returns an empty mapping for any directory tree. The code reads the size of a
  listed file before it tests the patterns, and outside any \<open>try\<close>: on the tree that lists
  \<open>gone\<close>, whose size cannot be read, the scan whose only pattern is the empty string raises
  the \<open>FileNotFoundError\<close> of \<open>os.path.getsize\<close> and returns no mapping, although the pattern
  excludes every file. The defect is the one that lets a single unreadable size end a scan.
\<close>

theorem empty_pattern_scan_can_raise:
  "[] \<in> set (ignore_patterns (FileDuplicateFinder_init broken_env ''/d'' (Some [[]]) None)) \<and>
   find_duplicate_files (FileDuplicateFinder_init broken_env ''/d'' (Some [[]]) None) broken_env
     = Inl (FileNotFoundError ''/d/gone'') \<and>
   find_duplicate_files (FileDuplicateFinder_init broken_env ''/d'' (Some [[]]) None) broken_env
     \<noteq> Inr []"
  by (simp add: scan_eval demo_env_def broken_env_def)

text \<open>
  The part of C10 that the code does provide: with the empty string among the patterns every
  file name is ignored and no file becomes a hashing candidate; where the size of every listed
  file can be read \<open>find_duplicate_files\<close> returns the empty mapping, and a mapping that it
  returns is empty.
\<close>

lemma empty_pattern_excludes_every_file:
  assumes "[] \<in> set (ignore_patterns self)"
  shows "should_ignore_file self filename \<and>
         (walk_dirs self e w [] = Inr files_to_check \<longrightarrow> files_to_check = []) \<and>
         ((\<forall>en \<in> set (discovered (walk e (directory self))). stat_ok e en)
            \<longrightarrow> find_duplicate_files self e = Inr []) \<and>
         (find_duplicate_files self e = Inr d \<longrightarrow> d = [])"
proof (intro conjI impI)
  show "should_ignore_file self filename"
    using assms by (rule empty_pattern_ignores)
next
  assume "walk_dirs self e w [] = Inr files_to_check"
  from walk_dirs_Inr[OF this] show "files_to_check = []"
    by (simp add: empty_pattern_candidates[OF assms])
next
  assume "\<forall>en \<in> set (discovered (walk e (directory self))). stat_ok e en"
  from walk_dirs_ok[OF this, of self "[]"]
  have "walk_dirs self e (walk e (directory self)) [] = Inr []"
    by (simp add: empty_pattern_candidates[OF assms])
  then show "find_duplicate_files self e = Inr []"
    by (rule find_duplicate_files_no_candidates)
next
  assume fd: "find_duplicate_files self e = Inr d"
  then have "\<forall>en \<in> set (discovered (walk e (directory self))). stat_ok e en"
    using find_duplicate_files_Inr_iff[of self e] by blast
  from walk_dirs_ok[OF this, of self "[]"]
  have "walk_dirs self e (walk e (directory self)) [] = Inr []"
    by (simp add: empty_pattern_candidates[OF assms])
  then have "find_duplicate_files self e = Inr []"
    by (rule find_duplicate_files_no_candidates)
  with fd show "d = []" by simp
qed

lemma empty_pattern_excludes_every_file_demo:
  "[] \<in> set (ignore_patterns (FileDuplicateFinder_init demo_env ''/d'' (Some [''tmp'', []]) None)) \<and>
   should_ignore_file (FileDuplicateFinder_init demo_env ''/d'' (Some [''tmp'', []]) None) ''a'' \<and>
   walk_dirs (FileDuplicateFinder_init demo_env ''/d'' (Some [''tmp'', []]) None) demo_env
     (walk demo_env ''/d'') [] = Inr [] \<and>
   find_duplicate_files (FileDuplicateFinder_init demo_env ''/d'' (Some [''tmp'', []]) None) demo_env
     = Inr []"
proof -
  have 1: "[] \<in> set (ignore_patterns (FileDuplicateFinder_init demo_env ''/d'' (Some [''tmp'', []]) None))"
    by (simp add: FileDuplicateFinder_init_def)
  note t = empty_pattern_excludes_every_file
    [OF 1, of "''a''" demo_env "walk demo_env ''/d''" "[]" "[]"]
  from t[THEN conjunct2, THEN conjunct2, THEN conjunct1] demo_stat_ok
  have 2: "find_duplicate_files (FileDuplicateFinder_init demo_env ''/d'' (Some [''tmp'', []]) None) demo_env
     = Inr []"
    by blast
  show ?thesis
    by (rule conjI[OF 1 conjI[OF t[THEN conjunct1] conjI[OF demo_walk_empty_pattern 2]]])
qed

end
